theory Spec2Isabelle
  imports Main
begin

section \<open>Python values used by the policy generator\<close>

text \<open>
  The generator works on dictionaries. A key of an input dictionary is in one of three
  states, and \<^verbatim>\<open>dict.get(key, default)\<close> tells them apart: the key is missing (the
  default is returned), the key is present with the value \<^verbatim>\<open>None\<close> (as the request
  handler in \<^verbatim>\<open>main.py\<close> passes an \<^verbatim>\<open>Optional\<close> field that was left out), or it is
  present with a proper value. A Python value of type \<^verbatim>\<open>Optional[T]\<close> is an \<open>option\<close>,
  with \<open>None\<close> for Python's \<^verbatim>\<open>None\<close>.
\<close>

datatype 'a field = Absent | Null | Val 'a

datatype py_error = KeyError string | TypeError

text \<open>\<^verbatim>\<open>d.get(key, default)\<close>, on the state of \<^verbatim>\<open>key\<close> in \<^verbatim>\<open>d\<close>.\<close>

fun dict_get :: "'a field \<Rightarrow> 'a option \<Rightarrow> 'a option" where
  "dict_get Absent d = d"
| "dict_get Null d = None"
| "dict_get (Val v) d = Some v"

text \<open>Storing a value under a key of a new dictionary: the key is present afterwards.\<close>

fun store :: "'a option \<Rightarrow> 'a field" where
  "store None = Null"
| "store (Some v) = Val v"

text \<open>Truth value of an \<^verbatim>\<open>Optional[list]\<close>: \<^verbatim>\<open>None\<close> and \<^verbatim>\<open>[]\<close> are falsy.\<close>

fun truthy :: "'a list option \<Rightarrow> bool" where
  "truthy None = False"
| "truthy (Some []) = False"
| "truthy (Some (x # xs)) = True"

text \<open>\<^verbatim>\<open>sep.join(xs)\<close>\<close>

fun join :: "string \<Rightarrow> string list \<Rightarrow> string" where
  "join sep [] = []"
| "join sep [x] = x"
| "join sep (x # y # ys) = x @ sep @ join sep (y # ys)"

text \<open>\<^verbatim>\<open>str(i)\<close> for a non-negative integer (the index of \<^verbatim>\<open>enumerate\<close>).\<close>

definition digit :: "nat \<Rightarrow> char" where
  "digit n = ''0123456789'' ! n"

function str_nat :: "nat \<Rightarrow> string" where
  "str_nat n = (if n < 10 then [digit n] else str_nat (n div 10) @ [digit (n mod 10)])"
  by pat_completeness auto
termination
  by (relation "measure id") auto

declare str_nat.simps [simp del]

section \<open>The intent (input)\<close>

text \<open>
  A rule dictionary. \<^verbatim>\<open>from\<close> and \<^verbatim>\<open>to\<close> are strings when present (\<open>None\<close>: the key is
  missing, which the validator reports and \<^verbatim>\<open>rule["from"]\<close> answers with a
  \<^verbatim>\<open>KeyError\<close>); \<^verbatim>\<open>ports\<close>, \<^verbatim>\<open>protocols\<close> and \<^verbatim>\<open>namespace\<close> are the \<^verbatim>\<open>Optional\<close>
  fields of \<^verbatim>\<open>ServiceRule\<close> in \<^verbatim>\<open>main.py\<close>.
\<close>

record rule =
  r_from :: "string option"
  r_to :: "string option"
  r_ports :: "int list field"
  r_protocols :: "string list field"
  r_namespace :: "string field"

text \<open>
  The intent dictionary: \<^verbatim>\<open>name\<close> and \<^verbatim>\<open>rules\<close> are a string and a list when present
  (\<open>None\<close>: the key is missing), \<^verbatim>\<open>namespace\<close> is \<^verbatim>\<open>Optional[str]\<close>.
\<close>

record intent =
  i_name :: "string option"
  i_namespace :: "string field"
  i_rules :: "rule list option"

section \<open>The manifests (output)\<close>

text \<open>\<^verbatim>\<open>{"port": port, "protocol": protocol}\<close>\<close>

record port_entry =
  port :: int
  protocol :: string

text \<open>
  A peer selector \<^verbatim>\<open>{"podSelector": {"matchLabels": {"app": a}}}\<close>, with the optional key
  \<^verbatim>\<open>"namespaceSelector": {"matchLabels": {"name": n}}\<close>: \<open>None\<close> when the key is absent,
  \<open>Some n\<close> when it is there (\<open>n\<close> is an \<^verbatim>\<open>Optional[str]\<close>).
\<close>

record peer_selector =
  podSelector :: string
  namespaceSelector :: "string option option"

text \<open>An ingress rule entry \<^verbatim>\<open>{"from": [...], "ports": [...]}\<close>; \<open>None\<close>: no \<^verbatim>\<open>ports\<close> key.\<close>

record ingress_rule =
  ir_from :: "peer_selector list"
  ir_ports :: "port_entry list option"

text \<open>An egress rule entry \<^verbatim>\<open>{"to": [...], "ports": [...]}\<close>.\<close>

record egress_rule =
  er_to :: "peer_selector list"
  er_ports :: "port_entry list option"

text \<open>The dictionaries \<^verbatim>\<open>labels\<close> and \<^verbatim>\<open>annotations\<close> keep their keys in insertion order.\<close>

record metadata =
  md_name :: string
  md_namespace :: "string option"
  labels :: "(string \<times> string) list"
  annotations :: "(string \<times> string) list"

text \<open>
  The \<^verbatim>\<open>spec\<close> of a manifest. Its pod selector is \<^verbatim>\<open>{}\<close> (\<open>None\<close>) or
  \<^verbatim>\<open>{"matchLabels": {"app": a}}\<close> (\<open>Some a\<close>); the keys \<^verbatim>\<open>ingress\<close> and \<^verbatim>\<open>egress\<close> are
  absent (\<open>None\<close>) or hold the list of rule entries.
\<close>

record policy_spec =
  target :: "string option"
  policyTypes :: "string list"
  ingress :: "ingress_rule list option"
  egress :: "egress_rule list option"

record manifest =
  apiVersion :: string
  kind :: string
  metadata :: metadata
  spec :: policy_spec

text \<open>The object: its only attribute is the list of the last generated policies.\<close>

record PolicyGenerator =
  generated_policies :: "manifest list"

text \<open>
  \<^verbatim>\<open>datetime.now().isoformat()\<close> is read once for every manifest that is built. The clock
  is a parameter: the text that the \<open>k\<close>-th reading of one call of \<^verbatim>\<open>generate\<close> returns.
\<close>

type_synonym clock = "nat \<Rightarrow> string"

section \<open>Default deny\<close>

definition generate_default_deny :: "string \<Rightarrow> string option \<Rightarrow> manifest" where
  "generate_default_deny now namespace =
     \<lparr>apiVersion = ''networking.k8s.io/v1'',
      kind = ''NetworkPolicy'',
      metadata =
        \<lparr>md_name = ''default-deny-all'',
         md_namespace = namespace,
         labels =
           [(''app.kubernetes.io/managed-by'', ''k8s-policy-generator''),
            (''policy-type'', ''default-deny'')],
         annotations =
           [(''description'', ''Default deny all ingress and egress traffic''),
            (''generated-at'', now)]\<rparr>,
      spec =
        \<lparr>target = None,
         policyTypes = [''Ingress'', ''Egress''],
         ingress = None,
         egress = None\<rparr>\<rparr>"

section \<open>Port expansion\<close>

text \<open>
  The nested loops
  \<^verbatim>\<open>for port in ports: for protocol in protocols: rule["ports"].append({...})\<close>.
  Iterating over \<^verbatim>\<open>None\<close> raises a \<^verbatim>\<open>TypeError\<close>; the inner \<^verbatim>\<open>for\<close> is reached only when
  there is a port.
\<close>

fun protocol_loop :: "int \<Rightarrow> string list \<Rightarrow> port_entry list \<Rightarrow> port_entry list" where
  "protocol_loop p [] acc = acc"
| "protocol_loop p (q # qs) acc = protocol_loop p qs (acc @ [\<lparr>port = p, protocol = q\<rparr>])"

fun port_loop :: "int list \<Rightarrow> string list option \<Rightarrow> port_entry list \<Rightarrow> py_error + port_entry list" where
  "port_loop [] protocols acc = Inr acc"
| "port_loop (p # ps) None acc = Inl TypeError"
| "port_loop (p # ps) (Some qs) acc = port_loop ps (Some qs) (protocol_loop p qs acc)"

text \<open>
  \<^verbatim>\<open>if ports: rule["ports"] = []; for ...\<close>: the value of the \<^verbatim>\<open>ports\<close> key of the rule
  entry, \<open>None\<close> when the key is not set.
\<close>

fun expand_ports :: "int list option \<Rightarrow> string list option \<Rightarrow> py_error + port_entry list option" where
  "expand_ports (Some (p # ps)) protocols =
     (case port_loop (p # ps) protocols [] of Inl e \<Rightarrow> Inl e | Inr acc \<Rightarrow> Inr (Some acc))"
| "expand_ports ports protocols = Inr None"

section \<open>Ingress\<close>

text \<open>The body of \<^verbatim>\<open>for rule in rules\<close> in \<^verbatim>\<open>_generate_ingress_policy\<close>.\<close>

definition ingress_rule_of :: "string option \<Rightarrow> rule \<Rightarrow> py_error + ingress_rule" where
  "ingress_rule_of namespace r =
     (case r_from r of
        None \<Rightarrow> Inl (KeyError ''from'')
      | Some src \<Rightarrow>
         (let from_selector = \<lparr>podSelector = src, namespaceSelector = None\<rparr>;
              source_ns = dict_get (r_namespace r) namespace;
              from_selector =
                (if source_ns \<noteq> namespace
                 then from_selector\<lparr>namespaceSelector := Some source_ns\<rparr>
                 else from_selector);
              ports = dict_get (r_ports r) None;
              protocols = dict_get (r_protocols r) (Some [''TCP''])
          in (case expand_ports ports protocols of
                Inl e \<Rightarrow> Inl e
              | Inr pl \<Rightarrow> Inr \<lparr>ir_from = [from_selector], ir_ports = pl\<rparr>)))"

fun ingress_rules_loop :: "string option \<Rightarrow> rule list \<Rightarrow> ingress_rule list \<Rightarrow> py_error + ingress_rule list" where
  "ingress_rules_loop namespace [] ingress_rules = Inr ingress_rules"
| "ingress_rules_loop namespace (r # rs) ingress_rules =
     (case ingress_rule_of namespace r of
        Inl e \<Rightarrow> Inl e
      | Inr ingress_rule \<Rightarrow> ingress_rules_loop namespace rs (ingress_rules @ [ingress_rule]))"

text \<open>\<^verbatim>\<open>[r["from"] for r in rules]\<close>\<close>

fun froms :: "rule list \<Rightarrow> py_error + string list" where
  "froms [] = Inr []"
| "froms (r # rs) =
     (case r_from r of
        None \<Rightarrow> Inl (KeyError ''from'')
      | Some src \<Rightarrow> (case froms rs of Inl e \<Rightarrow> Inl e | Inr xs \<Rightarrow> Inr (src # xs)))"

definition generate_ingress_policy ::
  "string \<Rightarrow> string \<Rightarrow> rule list \<Rightarrow> string option \<Rightarrow> string \<Rightarrow> py_error + manifest" where
  "generate_ingress_policy now dest_service rules namespace intent_name =
     (case ingress_rules_loop namespace rules [] of
        Inl e \<Rightarrow> Inl e
      | Inr ingress_rules \<Rightarrow>
          (case froms rules of
             Inl e \<Rightarrow> Inl e
           | Inr sources \<Rightarrow>
               Inr \<lparr>apiVersion = ''networking.k8s.io/v1'',
                    kind = ''NetworkPolicy'',
                    metadata =
                      \<lparr>md_name = ''allow-ingress-to-'' @ dest_service,
                       md_namespace = namespace,
                       labels =
                         [(''app.kubernetes.io/managed-by'', ''k8s-policy-generator''),
                          (''policy-type'', ''ingress''),
                          (''target-service'', dest_service),
                          (''intent'', intent_name)],
                       annotations =
                         [(''description'', ''Allow ingress traffic to '' @ dest_service),
                          (''generated-at'', now),
                          (''allowed-sources'', join '','' sources)]\<rparr>,
                    spec =
                      \<lparr>target = Some dest_service,
                       policyTypes = [''Ingress''],
                       ingress = Some ingress_rules,
                       egress = None\<rparr>\<rparr>))"

section \<open>Grouping in a dictionary\<close>

text \<open>
  A dictionary of lists, as the list of its items in insertion order (the order in which
  \<^verbatim>\<open>items()\<close> yields them). \<open>dict_append d k v\<close> is
  \<^verbatim>\<open>if k not in d: d[k] = []\<close> followed by \<^verbatim>\<open>d[k].append(v)\<close>.
\<close>

definition dict_append :: "('k \<times> 'v list) list \<Rightarrow> 'k \<Rightarrow> 'v \<Rightarrow> ('k \<times> 'v list) list" where
  "dict_append d k v =
     (let d = (if k \<notin> fst ` set d then d @ [(k, [])] else d)
      in map (\<lambda>(k', vs). if k' = k then (k', vs @ [v]) else (k', vs)) d)"

text \<open>The loop \<^verbatim>\<open>for rule in intent.get("rules", [])\<close> of \<^verbatim>\<open>generate\<close>.\<close>

fun group_by_dest ::
  "rule list \<Rightarrow> (string \<times> rule list) list \<Rightarrow> py_error + (string \<times> rule list) list" where
  "group_by_dest [] rules_by_dest = Inr rules_by_dest"
| "group_by_dest (r # rs) rules_by_dest =
     (case r_to r of
        None \<Rightarrow> Inl (KeyError ''to'')
      | Some dest \<Rightarrow> group_by_dest rs (dict_append rules_by_dest dest r))"

section \<open>Egress\<close>

text \<open>
  The dictionary that \<^verbatim>\<open>_extract_egress_rules\<close> builds for a rule. It always has its four
  keys; \<^verbatim>\<open>_generate_egress_policy\<close> reads three of them with \<^verbatim>\<open>get\<close>.
\<close>

record egress_dest =
  d_to :: string
  d_ports :: "int list field"
  d_protocols :: "string list field"
  d_namespace :: "string field"

fun extract_egress_rules ::
  "rule list \<Rightarrow> (string \<times> egress_dest list) list \<Rightarrow> py_error + (string \<times> egress_dest list) list" where
  "extract_egress_rules [] egress_by_source = Inr egress_by_source"
| "extract_egress_rules (r # rs) egress_by_source =
     (case r_from r of
        None \<Rightarrow> Inl (KeyError ''from'')
      | Some source \<Rightarrow>
          (case r_to r of
             None \<Rightarrow> Inl (KeyError ''to'')
           | Some dst \<Rightarrow>
               extract_egress_rules rs
                 (dict_append egress_by_source source
                    \<lparr>d_to = dst,
                     d_ports = store (dict_get (r_ports r) None),
                     d_protocols = store (dict_get (r_protocols r) (Some [''TCP''])),
                     d_namespace = store (dict_get (r_namespace r) (Some ''default''))\<rparr>)))"

text \<open>The body of \<^verbatim>\<open>for dest in destinations\<close> in \<^verbatim>\<open>_generate_egress_policy\<close>.\<close>

definition egress_rule_of :: "string option \<Rightarrow> egress_dest \<Rightarrow> py_error + egress_rule" where
  "egress_rule_of namespace dest =
     (let to_selector = \<lparr>podSelector = d_to dest, namespaceSelector = None\<rparr>;
          dest_ns = dict_get (d_namespace dest) namespace;
          to_selector =
            (if dest_ns \<noteq> namespace
             then to_selector\<lparr>namespaceSelector := Some dest_ns\<rparr>
             else to_selector)
      in (case expand_ports (dict_get (d_ports dest) None)
                 (dict_get (d_protocols dest) (Some [''TCP''])) of
            Inl e \<Rightarrow> Inl e
          | Inr pl \<Rightarrow> Inr \<lparr>er_to = [to_selector], er_ports = pl\<rparr>))"

fun egress_rules_loop ::
  "string option \<Rightarrow> egress_dest list \<Rightarrow> egress_rule list \<Rightarrow> py_error + egress_rule list" where
  "egress_rules_loop namespace [] egress_rules = Inr egress_rules"
| "egress_rules_loop namespace (dest # dests) egress_rules =
     (case egress_rule_of namespace dest of
        Inl e \<Rightarrow> Inl e
      | Inr egress_rule \<Rightarrow> egress_rules_loop namespace dests (egress_rules @ [egress_rule]))"

text \<open>The entry that allows DNS, appended after the loop.\<close>

definition dns_rule :: egress_rule where
  "dns_rule =
     \<lparr>er_to = [],
      er_ports = Some [\<lparr>port = 53, protocol = ''UDP''\<rparr>, \<lparr>port = 53, protocol = ''TCP''\<rparr>]\<rparr>"

definition generate_egress_policy ::
  "string \<Rightarrow> string \<Rightarrow> egress_dest list \<Rightarrow> string option \<Rightarrow> string \<Rightarrow> py_error + manifest" where
  "generate_egress_policy now source_service destinations namespace intent_name =
     (case egress_rules_loop namespace destinations [] of
        Inl e \<Rightarrow> Inl e
      | Inr egress_rules \<Rightarrow>
          (let egress_rules = egress_rules @ [dns_rule]
           in Inr \<lparr>apiVersion = ''networking.k8s.io/v1'',
                   kind = ''NetworkPolicy'',
                   metadata =
                     \<lparr>md_name = ''allow-egress-from-'' @ source_service,
                      md_namespace = namespace,
                      labels =
                        [(''app.kubernetes.io/managed-by'', ''k8s-policy-generator''),
                         (''policy-type'', ''egress''),
                         (''source-service'', source_service),
                         (''intent'', intent_name)],
                      annotations =
                        [(''description'', ''Allow egress traffic from '' @ source_service),
                         (''generated-at'', now),
                         (''allowed-destinations'', join '','' (map d_to destinations))]\<rparr>,
                   spec =
                     \<lparr>target = Some source_service,
                      policyTypes = [''Egress''],
                      ingress = None,
                      egress = Some egress_rules\<rparr>\<rparr>))"

section \<open>generate\<close>

text \<open>
  The two loops over the groups. Each manifest reads the clock once; \<open>n\<close> counts the
  readings made so far.
\<close>

fun ingress_loop ::
  "clock \<Rightarrow> nat \<Rightarrow> (string \<times> rule list) list \<Rightarrow> string option \<Rightarrow> string \<Rightarrow> manifest list
     \<Rightarrow> py_error + (manifest list \<times> nat)" where
  "ingress_loop clk n [] namespace intent_name policies = Inr (policies, n)"
| "ingress_loop clk n ((dest_service, rules) # rest) namespace intent_name policies =
     (case generate_ingress_policy (clk n) dest_service rules namespace intent_name of
        Inl e \<Rightarrow> Inl e
      | Inr policy \<Rightarrow> ingress_loop clk (Suc n) rest namespace intent_name (policies @ [policy]))"

fun egress_loop ::
  "clock \<Rightarrow> nat \<Rightarrow> (string \<times> egress_dest list) list \<Rightarrow> string option \<Rightarrow> string \<Rightarrow> manifest list
     \<Rightarrow> py_error + (manifest list \<times> nat)" where
  "egress_loop clk n [] namespace intent_name policies = Inr (policies, n)"
| "egress_loop clk n ((source_service, destinations) # rest) namespace intent_name policies =
     (case generate_egress_policy (clk n) source_service destinations namespace intent_name of
        Inl e \<Rightarrow> Inl e
      | Inr policy \<Rightarrow> egress_loop clk (Suc n) rest namespace intent_name (policies @ [policy]))"

text \<open>\<^verbatim>\<open>intent.get("rules", [])\<close> and \<^verbatim>\<open>intent.get("name", "generated")\<close>\<close>

definition rules_of :: "intent \<Rightarrow> rule list" where
  "rules_of i = (case i_rules i of None \<Rightarrow> [] | Some rs \<Rightarrow> rs)"

definition name_of :: "intent \<Rightarrow> string" where
  "name_of i = (case i_name i of None \<Rightarrow> ''generated'' | Some n \<Rightarrow> n)"

text \<open>
  \<^verbatim>\<open>generate\<close> returns the list of manifests and leaves it in \<^verbatim>\<open>self.generated_policies\<close>;
  an exception leaves the object as it was.
\<close>

definition generate ::
  "clock \<Rightarrow> PolicyGenerator \<Rightarrow> intent \<Rightarrow> py_error + (manifest list \<times> PolicyGenerator)" where
  "generate clk self i =
     (let policies = [];
          namespace = dict_get (i_namespace i) (Some ''default'');
          policies = policies @ [generate_default_deny (clk 0) namespace]
      in (case group_by_dest (rules_of i) [] of
            Inl e \<Rightarrow> Inl e
          | Inr rules_by_dest \<Rightarrow>
              (case ingress_loop clk 1 rules_by_dest namespace (name_of i) policies of
                 Inl e \<Rightarrow> Inl e
               | Inr (policies, n) \<Rightarrow>
                   (case extract_egress_rules (rules_of i) [] of
                      Inl e \<Rightarrow> Inl e
                    | Inr egress_rules \<Rightarrow>
                        (case egress_loop clk n egress_rules namespace (name_of i) policies of
                           Inl e \<Rightarrow> Inl e
                         | Inr (policies, n) \<Rightarrow>
                             Inr (policies, self\<lparr>generated_policies := policies\<rparr>))))))"

section \<open>validate_intent\<close>

record validation =
  valid :: bool
  errors :: "string list"
  warnings :: "string list"

text \<open>The loop \<^verbatim>\<open>for i, rule in enumerate(intent.get("rules", []))\<close>.\<close>

fun validate_rules ::
  "nat \<Rightarrow> rule list \<Rightarrow> string list \<Rightarrow> string list \<Rightarrow> string list \<times> string list" where
  "validate_rules i [] errs warns = (errs, warns)"
| "validate_rules i (r # rs) errs warns =
     (let errs = (if r_from r = None
                  then errs @ [''Rule '' @ str_nat i @ '': Missing 'from' field''] else errs);
          errs = (if r_to r = None
                  then errs @ [''Rule '' @ str_nat i @ '': Missing 'to' field''] else errs);
          warns = (if r_from r = r_to r
                   then warns @ [''Rule '' @ str_nat i @ '': Source and destination are the same'']
                   else warns)
      in validate_rules (Suc i) rs errs warns)"

definition validate_intent :: "intent \<Rightarrow> validation" where
  "validate_intent i =
     (let errs = [];
          warns = [];
          errs = (if i_rules i = None then errs @ [''Missing 'rules' field in intent''] else errs);
          warns = (if \<not> truthy (i_rules i)
                   then warns @ [''No rules defined in intent''] else warns);
          (errs, warns) = validate_rules 0 (rules_of i) errs warns
      in \<lparr>valid = (length errs = 0), errors = errs, warnings = warns\<rparr>)"

text \<open>\<^verbatim>\<open>__init__\<close>\<close>

definition init :: PolicyGenerator where
  "init = \<lparr>generated_policies = []\<rparr>"

section \<open>Vocabulary of the specification\<close>

subsection \<open>First-seen order and groups\<close>

text \<open>
  The distinct elements of a list in the order of their first occurrence: the head stays,
  its later occurrences go.
\<close>

fun first_seen :: "'a list \<Rightarrow> 'a list" where
  "first_seen [] = []"
| "first_seen (x # xs) = x # removeAll x (first_seen xs)"

text \<open>
  Stable grouping: one group for every distinct key, groups in first-seen order of their
  keys, the members of a group in the order of the list.
\<close>

definition grouped :: "('x \<Rightarrow> 'k) \<Rightarrow> ('x \<Rightarrow> 'v) \<Rightarrow> 'x list \<Rightarrow> ('k \<times> 'v list) list" where
  "grouped key val xs = map (\<lambda>k. (k, map val (filter (\<lambda>x. key x = k) xs))) (first_seen (map key xs))"

text \<open>The destination and the source services that a list of rules names, in rule order.\<close>

fun dests :: "rule list \<Rightarrow> string list" where
  "dests [] = []"
| "dests (r # rs) = (case r_to r of None \<Rightarrow> dests rs | Some d \<Rightarrow> d # dests rs)"

fun sources :: "rule list \<Rightarrow> string list" where
  "sources [] = []"
| "sources (r # rs) = (case r_from r of None \<Rightarrow> sources rs | Some s \<Rightarrow> s # sources rs)"

text \<open>The sources of the rules that name \<open>d\<close> as their destination, one for every such rule.\<close>

definition sources_to :: "string \<Rightarrow> rule list \<Rightarrow> string list" where
  "sources_to d rs = sources (filter (\<lambda>r. r_to r = Some d) rs)"

text \<open>
  Total readings of \<^verbatim>\<open>rule["to"]\<close> and \<^verbatim>\<open>rule["from"]\<close>, and the dictionary that
  \<^verbatim>\<open>_extract_egress_rules\<close> builds from a rule. They are used in the proofs only, for rules
  that have both keys.
\<close>

definition to_of :: "rule \<Rightarrow> string" where
  "to_of r = (case r_to r of None \<Rightarrow> [] | Some d \<Rightarrow> d)"

definition from_of :: "rule \<Rightarrow> string" where
  "from_of r = (case r_from r of None \<Rightarrow> [] | Some s \<Rightarrow> s)"

definition dest_entry :: "rule \<Rightarrow> egress_dest" where
  "dest_entry r =
     \<lparr>d_to = to_of r,
      d_ports = store (dict_get (r_ports r) None),
      d_protocols = store (dict_get (r_protocols r) (Some [''TCP''])),
      d_namespace = store (dict_get (r_namespace r) (Some ''default''))\<rparr>"

subsection \<open>Reading the result\<close>

text \<open>The list that \<^verbatim>\<open>generate\<close> returns; empty when it raised.\<close>

definition policies_of :: "py_error + (manifest list \<times> PolicyGenerator) \<Rightarrow> manifest list" where
  "policies_of r = (case r of Inl e \<Rightarrow> [] | Inr out \<Rightarrow> fst out)"

text \<open>The namespace of the policies of an intent: \<^verbatim>\<open>intent.get("namespace", "default")\<close>.\<close>

definition namespace_of :: "intent \<Rightarrow> string option" where
  "namespace_of i = dict_get (i_namespace i) (Some ''default'')"

text \<open>The three kinds of manifest are told apart by their label \<^verbatim>\<open>policy-type\<close>.\<close>

definition policy_type :: "manifest \<Rightarrow> string option" where
  "policy_type m = map_of (labels (metadata m)) ''policy-type''"

definition default_deny_manifests :: "manifest list \<Rightarrow> manifest list" where
  "default_deny_manifests ps = filter (\<lambda>m. policy_type m = Some ''default-deny'') ps"

definition ingress_manifests :: "manifest list \<Rightarrow> manifest list" where
  "ingress_manifests ps = filter (\<lambda>m. policy_type m = Some ''ingress'') ps"

definition egress_manifests :: "manifest list \<Rightarrow> manifest list" where
  "egress_manifests ps = filter (\<lambda>m. policy_type m = Some ''egress'') ps"

definition ingress_entries :: "manifest \<Rightarrow> ingress_rule list" where
  "ingress_entries m = (case ingress (spec m) of None \<Rightarrow> [] | Some es \<Rightarrow> es)"

definition egress_entries :: "manifest \<Rightarrow> egress_rule list" where
  "egress_entries m = (case egress (spec m) of None \<Rightarrow> [] | Some es \<Rightarrow> es)"

text \<open>The pod selectors that the manifests of each kind target, and the namespaces of the
  default-deny manifests, in the order of the list.\<close>

definition ingress_targets :: "manifest list \<Rightarrow> string option list" where
  "ingress_targets ps = map (\<lambda>m. target (spec m)) (ingress_manifests ps)"

definition egress_targets :: "manifest list \<Rightarrow> string option list" where
  "egress_targets ps = map (\<lambda>m. target (spec m)) (egress_manifests ps)"

definition default_deny_namespaces :: "manifest list \<Rightarrow> string option list" where
  "default_deny_namespaces ps = map (\<lambda>m. md_namespace (metadata m)) (default_deny_manifests ps)"

subsection \<open>Ingress entries and their sources\<close>

text \<open>The peers (by their \<^verbatim>\<open>app\<close> label) of each ingress rule entry of a manifest, and the
  ingress manifests of a list as pairs of target and entries.\<close>

definition entry_peers :: "manifest \<Rightarrow> string list list" where
  "entry_peers m = map (\<lambda>e. map podSelector (ir_from e)) (ingress_entries m)"

definition ingress_peers :: "manifest list \<Rightarrow> (string option \<times> string list list) list" where
  "ingress_peers ps = map (\<lambda>m. (target (spec m), entry_peers m)) (ingress_manifests ps)"

text \<open>
  Two readings of the ingress manifests of a rule list. \<open>entry_per_source\<close> follows the
  words of the specification: one manifest for every distinct destination, with one entry
  for every distinct source that names it, in first-seen order. \<open>entry_per_rule\<close> has
  one entry for every rule that names the destination, in rule order.
\<close>

definition entry_per_source :: "rule list \<Rightarrow> (string option \<times> string list list) list" where
  "entry_per_source rs =
     map (\<lambda>d. (Some d, map (\<lambda>s. [s]) (first_seen (sources_to d rs)))) (first_seen (dests rs))"

definition entry_per_rule :: "rule list \<Rightarrow> (string option \<times> string list list) list" where
  "entry_per_rule rs =
     map (\<lambda>d. (Some d, map (\<lambda>s. [s]) (sources_to d rs))) (first_seen (dests rs))"

subsection \<open>Namespaces\<close>

text \<open>
  The distinct namespaces that an intent refers to, in the words of the specification: its
  own, and the namespace of every rule, which is the intent's when the rule has none.
\<close>

definition referenced_namespaces :: "intent \<Rightarrow> string option list" where
  "referenced_namespaces i =
     first_seen (namespace_of i # map (\<lambda>r. dict_get (r_namespace r) (namespace_of i)) (rules_of i))"

text \<open>The namespace selector of a peer in the words of the specification: present, and
  naming the peer's namespace, exactly when that differs from the policy's.\<close>

definition crossing :: "string option \<Rightarrow> string option \<Rightarrow> string option option" where
  "crossing peer_ns policy_ns = (if peer_ns \<noteq> policy_ns then Some peer_ns else None)"

text \<open>The \<^verbatim>\<open>namespaceSelector\<close> key of every peer of every entry of every manifest.\<close>

definition ingress_namespace_selectors :: "manifest list \<Rightarrow> string option option list list list" where
  "ingress_namespace_selectors ps =
     map (\<lambda>m. map (\<lambda>e. map namespaceSelector (ir_from e)) (ingress_entries m)) (ingress_manifests ps)"

definition egress_namespace_selectors :: "manifest list \<Rightarrow> string option option list list list" where
  "egress_namespace_selectors ps =
     map (\<lambda>m. map (\<lambda>e. map namespaceSelector (er_to e)) (egress_entries m)) (egress_manifests ps)"

subsection \<open>Ports\<close>

text \<open>
  The port list of a rule in the words of the specification: the cartesian product of its
  ports and its protocols (\<^verbatim>\<open>["TCP"]\<close> when the rule has none), ports outside and
  protocols inside; no port list at all when the rule has no ports or an empty list.
\<close>

definition cartesian_ports :: "int list \<Rightarrow> string list \<Rightarrow> port_entry list" where
  "cartesian_ports ps qs = map (\<lambda>(p, q). \<lparr>port = p, protocol = q\<rparr>) (List.product ps qs)"

definition protocols_or_default :: "rule \<Rightarrow> string list" where
  "protocols_or_default r = (case r_protocols r of Val qs \<Rightarrow> qs | _ \<Rightarrow> [''TCP''])"

definition claimed_ports :: "rule \<Rightarrow> port_entry list option" where
  "claimed_ports r =
     (case r_ports r of
        Val (p # ps) \<Rightarrow> Some (cartesian_ports (p # ps) (protocols_or_default r))
      | _ \<Rightarrow> None)"

text \<open>The \<^verbatim>\<open>ports\<close> key of every entry of every manifest; for an egress manifest, of every
  entry but the last, which is the DNS entry.\<close>

definition ingress_ports :: "manifest list \<Rightarrow> port_entry list option list list" where
  "ingress_ports ps = map (\<lambda>m. map ir_ports (ingress_entries m)) (ingress_manifests ps)"

definition egress_ports :: "manifest list \<Rightarrow> port_entry list option list list" where
  "egress_ports ps = map (\<lambda>m. map er_ports (butlast (egress_entries m))) (egress_manifests ps)"

definition ports_by_dest :: "rule list \<Rightarrow> port_entry list option list list" where
  "ports_by_dest rs =
     map (\<lambda>d. map claimed_ports (filter (\<lambda>r. r_to r = Some d) rs)) (first_seen (dests rs))"

definition ports_by_source :: "rule list \<Rightarrow> port_entry list option list list" where
  "ports_by_source rs =
     map (\<lambda>s. map claimed_ports (filter (\<lambda>r. r_from r = Some s) rs)) (first_seen (sources rs))"

subsection \<open>Equality up to the time of generation\<close>

text \<open>A manifest without its annotation \<^verbatim>\<open>generated-at\<close>; every other field stays.\<close>

definition strip_generated_at :: "manifest \<Rightarrow> manifest" where
  "strip_generated_at m =
     m\<lparr>metadata := (metadata m)
          \<lparr>annotations := filter (\<lambda>kv. fst kv \<noteq> ''generated-at'') (annotations (metadata m))\<rparr>\<rparr>"

text \<open>What a call of \<^verbatim>\<open>generate\<close> yields, the exception or the list, without the times.\<close>

definition timeless :: "py_error + (manifest list \<times> PolicyGenerator) \<Rightarrow> py_error + manifest list" where
  "timeless r = (case r of Inl e \<Rightarrow> Inl e | Inr out \<Rightarrow> Inr (map strip_generated_at (fst out)))"

definition same_but_time :: "py_error + manifest \<Rightarrow> py_error + manifest \<Rightarrow> bool" where
  "same_but_time = rel_sum (=) (\<lambda>m m'. strip_generated_at m = strip_generated_at m')"

definition same_lists_but_time ::
  "py_error + (manifest list \<times> nat) \<Rightarrow> py_error + (manifest list \<times> nat) \<Rightarrow> bool" where
  "same_lists_but_time =
     rel_sum (=) (\<lambda>a b. map strip_generated_at (fst a) = map strip_generated_at (fst b))"

subsection \<open>What a manifest that was built holds\<close>

definition built_ingress :: "string option \<Rightarrow> string \<Rightarrow> rule list \<Rightarrow> manifest \<Rightarrow> bool" where
  "built_ingress ns d rs m \<longleftrightarrow>
     policy_type m = Some ''ingress'' \<and> target (spec m) = Some d \<and>
     md_namespace (metadata m) = ns \<and>
     list_all2 (\<lambda>r e. ingress_rule_of ns r = Inr e) rs (ingress_entries m)"

definition built_egress :: "string option \<Rightarrow> string \<Rightarrow> egress_dest list \<Rightarrow> manifest \<Rightarrow> bool" where
  "built_egress ns s ds m \<longleftrightarrow>
     policy_type m = Some ''egress'' \<and> target (spec m) = Some s \<and>
     md_namespace (metadata m) = ns \<and>
     (\<exists>es. egress_entries m = es @ [dns_rule] \<and>
           list_all2 (\<lambda>d e. egress_rule_of ns d = Inr e) ds es)"

subsection \<open>Rules that the generator can expand\<close>

text \<open>A rule with ports whose \<^verbatim>\<open>protocols\<close> key is \<^verbatim>\<open>None\<close> makes the inner loop iterate
  over \<^verbatim>\<open>None\<close>; every other rule has its protocols given, by a list or by the default.\<close>

definition protocols_given :: "rule \<Rightarrow> bool" where
  "protocols_given r \<longleftrightarrow> \<not> (truthy (dict_get (r_ports r) None) \<and> r_protocols r = Null)"

definition dest_ok :: "egress_dest \<Rightarrow> bool" where
  "dest_ok d \<longleftrightarrow>
     \<not> (truthy (dict_get (d_ports d) None) \<and> dict_get (d_protocols d) (Some [''TCP'']) = None)"

subsection \<open>Sample inputs\<close>

text \<open>Two clocks, and an intent with a destination that two sources name, a rule from
  another namespace, a rule with two ports and two protocols, and a rule with an empty
  port list and a null namespace.\<close>

definition epoch :: clock where
  "epoch k = ''2024-01-01T00:00:00''"

definition later :: clock where
  "later k = ''2031-07-01T12:00:0'' @ str_nat k"

definition sample_intent :: intent where
  "sample_intent =
     \<lparr>i_name = Some ''shop'', i_namespace = Val ''default'',
      i_rules = Some
        [\<lparr>r_from = Some ''frontend'', r_to = Some ''backend'', r_ports = Val [8080],
          r_protocols = Val [''TCP''], r_namespace = Absent\<rparr>,
         \<lparr>r_from = Some ''auth'', r_to = Some ''backend'', r_ports = Val [80, 443],
          r_protocols = Val [''TCP'', ''UDP''], r_namespace = Val ''web''\<rparr>,
         \<lparr>r_from = Some ''frontend'', r_to = Some ''db'', r_ports = Val [],
          r_protocols = Absent, r_namespace = Null\<rparr>]\<rparr>"

section \<open>Lemmas about the loops\<close>

lemma set_first_seen [simp]: "set (first_seen xs) = set xs"
  by (induction xs) auto

lemma distinct_first_seen [simp]: "distinct (first_seen xs)"
  by (induction xs) (auto simp: distinct_removeAll)

lemma first_seen_snoc:
  "first_seen (xs @ [x]) = (if x \<in> set xs then first_seen xs else first_seen xs @ [x])"
  by (induction xs) auto

lemma first_seen_map_inj:
  "inj f \<Longrightarrow> first_seen (map f xs) = map f (first_seen xs)"
proof (induction xs)
  case Nil
  then show ?case by simp
next
  case (Cons x xs)
  have "removeAll (f x) (map f ys) = map f (removeAll x ys)" for ys
    using Cons.prems by (induction ys) (auto dest: injD)
  with Cons show ?case by simp
qed

lemma dict_append_grouped:
  "dict_append (grouped key val xs) (key x) (val x) = grouped key val (xs @ [x])"
proof (cases "key x \<in> key ` set xs")
  case True
  then show ?thesis
    by (auto simp: dict_append_def grouped_def first_seen_snoc image_image)
next
  case False
  then have "\<forall>y \<in> set xs. key y \<noteq> key x"
    by (metis imageI)
  then have "filter (\<lambda>y. key y = key x) xs = []"
    by (simp add: filter_empty_conv)
  with False show ?thesis
    by (auto simp: dict_append_def grouped_def first_seen_snoc image_image)
qed

lemma foldl_dict_append_grouped:
  "foldl (\<lambda>d x. dict_append d (key x) (val x)) (grouped key val pre) xs = grouped key val (pre @ xs)"
proof (induction xs arbitrary: pre)
  case Nil
  then show ?case by simp
next
  case (Cons x xs)
  show ?case
    using Cons.IH [of "pre @ [x]"] by (simp add: dict_append_grouped)
qed

lemma list_all2_map_eq:
  "list_all2 P xs ys \<Longrightarrow> (\<And>x y. P x y \<Longrightarrow> f x = g y) \<Longrightarrow> map f xs = map g ys"
  by (induction rule: list_all2_induct) auto

lemma group_by_dest_Inr:
  "group_by_dest rs d = Inr d' \<Longrightarrow>
     list_all (\<lambda>r. r_to r \<noteq> None) rs \<and> d' = foldl (\<lambda>d r. dict_append d (to_of r) r) d rs"
  by (induction rs arbitrary: d) (auto simp: to_of_def split: option.splits)

lemma group_by_dest_total:
  "list_all (\<lambda>r. r_to r \<noteq> None) rs \<Longrightarrow>
     group_by_dest rs d = Inr (foldl (\<lambda>d r. dict_append d (to_of r) r) d rs)"
  by (induction rs arbitrary: d) (auto simp: to_of_def split: option.splits)

lemma extract_egress_rules_Inr:
  "extract_egress_rules rs d = Inr d' \<Longrightarrow>
     list_all (\<lambda>r. r_from r \<noteq> None \<and> r_to r \<noteq> None) rs \<and>
     d' = foldl (\<lambda>d r. dict_append d (from_of r) (dest_entry r)) d rs"
  by (induction rs arbitrary: d)
     (auto simp: to_of_def from_of_def dest_entry_def split: option.splits)

lemma extract_egress_rules_total:
  "list_all (\<lambda>r. r_from r \<noteq> None \<and> r_to r \<noteq> None) rs \<Longrightarrow>
     extract_egress_rules rs d = Inr (foldl (\<lambda>d r. dict_append d (from_of r) (dest_entry r)) d rs)"
  by (induction rs arbitrary: d)
     (auto simp: to_of_def from_of_def dest_entry_def split: option.splits)

lemma grouped_Nil [simp]: "grouped key val [] = []"
  by (simp add: grouped_def)

lemma group_by_dest_grouped:
  "group_by_dest rs [] = Inr d' \<Longrightarrow> d' = grouped to_of id rs"
  using group_by_dest_Inr [of rs "[]" d']
    foldl_dict_append_grouped [of to_of id "[]" rs] by simp

lemma extract_egress_rules_grouped:
  "extract_egress_rules rs [] = Inr d' \<Longrightarrow> d' = grouped from_of dest_entry rs"
  using extract_egress_rules_Inr [of rs "[]" d']
    foldl_dict_append_grouped [of from_of dest_entry "[]" rs] by simp

lemma ingress_rules_loop_Inr:
  "ingress_rules_loop ns rs acc = Inr es \<Longrightarrow>
     \<exists>es'. es = acc @ es' \<and> list_all2 (\<lambda>r e. ingress_rule_of ns r = Inr e) rs es'"
proof (induction rs arbitrary: acc)
  case Nil
  then show ?case by simp
next
  case (Cons r rs)
  then obtain e where e: "ingress_rule_of ns r = Inr e"
    and loop: "ingress_rules_loop ns rs (acc @ [e]) = Inr es"
    by (auto split: sum.splits)
  from Cons.IH [OF loop] obtain es' where "es = (acc @ [e]) @ es'"
    and "list_all2 (\<lambda>r e. ingress_rule_of ns r = Inr e) rs es'"
    by blast
  with e show ?case by (intro exI [of _ "e # es'"]) simp
qed

lemma egress_rules_loop_Inr:
  "egress_rules_loop ns ds acc = Inr es \<Longrightarrow>
     \<exists>es'. es = acc @ es' \<and> list_all2 (\<lambda>d e. egress_rule_of ns d = Inr e) ds es'"
proof (induction ds arbitrary: acc)
  case Nil
  then show ?case by simp
next
  case (Cons d ds)
  then obtain e where e: "egress_rule_of ns d = Inr e"
    and loop: "egress_rules_loop ns ds (acc @ [e]) = Inr es"
    by (auto split: sum.splits)
  from Cons.IH [OF loop] obtain es' where "es = (acc @ [e]) @ es'"
    and "list_all2 (\<lambda>d e. egress_rule_of ns d = Inr e) ds es'"
    by blast
  with e show ?case by (intro exI [of _ "e # es'"]) simp
qed

lemma generate_ingress_policy_Inr:
  "generate_ingress_policy now d rs ns nm = Inr m \<Longrightarrow> built_ingress ns d rs m"
  unfolding generate_ingress_policy_def built_ingress_def
  by (auto split: sum.splits dest!: ingress_rules_loop_Inr
        simp: policy_type_def ingress_entries_def)

lemma generate_egress_policy_Inr:
  "generate_egress_policy now s ds ns nm = Inr m \<Longrightarrow> built_egress ns s ds m"
  unfolding generate_egress_policy_def built_egress_def
  by (auto split: sum.splits dest!: egress_rules_loop_Inr
        simp: policy_type_def egress_entries_def)

lemma ingress_loop_Inr:
  "ingress_loop clk n gs ns nm acc = Inr (ps, n') \<Longrightarrow>
     \<exists>ing. ps = acc @ ing \<and> list_all2 (\<lambda>(d, rs) m. built_ingress ns d rs m) gs ing"
proof (induction gs arbitrary: n acc)
  case Nil
  then show ?case by simp
next
  case (Cons g gs)
  obtain d rs where g: "g = (d, rs)" by (cases g)
  from Cons.prems g obtain m where m: "generate_ingress_policy (clk n) d rs ns nm = Inr m"
    and loop: "ingress_loop clk (Suc n) gs ns nm (acc @ [m]) = Inr (ps, n')"
    by (auto split: sum.splits)
  from Cons.IH [OF loop] obtain ing where "ps = (acc @ [m]) @ ing"
    and "list_all2 (\<lambda>(d, rs) m. built_ingress ns d rs m) gs ing"
    by blast
  with g generate_ingress_policy_Inr [OF m] show ?case
    by (intro exI [of _ "m # ing"]) simp
qed

lemma egress_loop_Inr:
  "egress_loop clk n gs ns nm acc = Inr (ps, n') \<Longrightarrow>
     \<exists>eg. ps = acc @ eg \<and> list_all2 (\<lambda>(s, ds) m. built_egress ns s ds m) gs eg"
proof (induction gs arbitrary: n acc)
  case Nil
  then show ?case by simp
next
  case (Cons g gs)
  obtain s ds where g: "g = (s, ds)" by (cases g)
  from Cons.prems g obtain m where m: "generate_egress_policy (clk n) s ds ns nm = Inr m"
    and loop: "egress_loop clk (Suc n) gs ns nm (acc @ [m]) = Inr (ps, n')"
    by (auto split: sum.splits)
  from Cons.IH [OF loop] obtain eg where "ps = (acc @ [m]) @ eg"
    and "list_all2 (\<lambda>(s, ds) m. built_egress ns s ds m) gs eg"
    by blast
  with g generate_egress_policy_Inr [OF m] show ?case
    by (intro exI [of _ "m # eg"]) simp
qed

lemma generate_Inr:
  assumes "generate clk self i = Inr (ps, self')"
  shows "\<exists>ing eg.
     ps = generate_default_deny (clk 0) (namespace_of i) # ing @ eg \<and>
     list_all2 (\<lambda>(d, rs) m. built_ingress (namespace_of i) d rs m)
       (grouped to_of id (rules_of i)) ing \<and>
     list_all2 (\<lambda>(s, ds) m. built_egress (namespace_of i) s ds m)
       (grouped from_of dest_entry (rules_of i)) eg \<and>
     list_all (\<lambda>r. r_from r \<noteq> None \<and> r_to r \<noteq> None) (rules_of i) \<and>
     self' = self\<lparr>generated_policies := ps\<rparr>"
proof -
  let ?ns = "namespace_of i" and ?dd = "generate_default_deny (clk 0) (namespace_of i)"
  from assms obtain gs ps1 n1 egs n2
    where gs: "group_by_dest (rules_of i) [] = Inr gs"
      and il: "ingress_loop clk 1 gs ?ns (name_of i) [?dd] = Inr (ps1, n1)"
      and egs: "extract_egress_rules (rules_of i) [] = Inr egs"
      and el: "egress_loop clk n1 egs ?ns (name_of i) ps1 = Inr (ps, n2)"
      and self': "self' = self\<lparr>generated_policies := ps\<rparr>"
    unfolding generate_def namespace_of_def Let_def
    by (auto split: sum.splits prod.splits)
  from ingress_loop_Inr [OF il] obtain ing where ing: "ps1 = [?dd] @ ing"
    "list_all2 (\<lambda>(d, rs) m. built_ingress ?ns d rs m) gs ing" by blast
  from egress_loop_Inr [OF el] obtain eg where eg: "ps = ps1 @ eg"
    "list_all2 (\<lambda>(s, ds) m. built_egress ?ns s ds m) egs eg" by blast
  from extract_egress_rules_Inr [OF egs]
  have ok: "list_all (\<lambda>r. r_from r \<noteq> None \<and> r_to r \<noteq> None) (rules_of i)" by simp
  from ing eg ok self' group_by_dest_grouped [OF gs] extract_egress_rules_grouped [OF egs]
  show ?thesis by (intro exI [of _ ing] exI [of _ eg]) simp
qed

lemma dict_get_store [simp]: "dict_get (store x) d = x"
  by (cases x) auto

lemma protocol_loop_eq:
  "protocol_loop p qs acc = acc @ map (\<lambda>q. \<lparr>port = p, protocol = q\<rparr>) qs"
  by (induction qs arbitrary: acc) auto

lemma port_loop_eq:
  "port_loop ps (Some qs) acc = Inr (acc @ cartesian_ports ps qs)"
  by (induction ps arbitrary: acc) (auto simp: cartesian_ports_def protocol_loop_eq comp_def)

lemma expand_ports_claimed:
  "expand_ports (dict_get (r_ports r) None) (dict_get (r_protocols r) (Some [''TCP''])) = Inr pl
     \<Longrightarrow> pl = claimed_ports r"
proof (cases "dict_get (r_ports r) None")
  case None
  then show "expand_ports (dict_get (r_ports r) None) (dict_get (r_protocols r) (Some [''TCP''])) = Inr pl
     \<Longrightarrow> pl = claimed_ports r"
    by (cases "r_ports r") (auto simp: claimed_ports_def)
next
  case (Some ports)
  assume ex: "expand_ports (dict_get (r_ports r) None) (dict_get (r_protocols r) (Some [''TCP''])) = Inr pl"
  from Some have v: "r_ports r = Val ports" by (cases "r_ports r") auto
  show "pl = claimed_ports r"
  proof (cases ports)
    case Nil
    with ex v show ?thesis by (simp add: claimed_ports_def)
  next
    case (Cons p ps)
    show ?thesis
    proof (cases "r_protocols r")
      case Absent
      with ex v Cons show ?thesis
        by (auto simp: claimed_ports_def protocols_or_default_def port_loop_eq
            simp del: port_loop.simps)
    next
      case Null
      with ex v Cons show ?thesis by simp
    next
      case (Val qs)
      with ex v Cons show ?thesis
        by (auto simp: claimed_ports_def protocols_or_default_def port_loop_eq
            simp del: port_loop.simps)
    qed
  qed
qed

lemma ingress_rule_of_Inr:
  assumes "ingress_rule_of ns r = Inr e"
  shows "r_from r \<noteq> None"
    and "ir_from e = [\<lparr>podSelector = from_of r,
            namespaceSelector = crossing (dict_get (r_namespace r) ns) ns\<rparr>]"
    and "ir_ports e = claimed_ports r"
  using assms expand_ports_claimed [of r]
  unfolding ingress_rule_of_def Let_def from_of_def crossing_def
  by (auto split: option.splits sum.splits)

lemma egress_rule_of_Inr:
  assumes "egress_rule_of ns (dest_entry r) = Inr e"
  shows "er_to e = [\<lparr>podSelector = to_of r,
            namespaceSelector = crossing (dict_get (r_namespace r) (Some ''default'')) ns\<rparr>]"
    and "er_ports e = claimed_ports r"
  using assms expand_ports_claimed [of r]
  unfolding egress_rule_of_def Let_def dest_entry_def crossing_def
  by (auto split: option.splits sum.splits)

lemma dests_eq: "list_all (\<lambda>r. r_to r \<noteq> None) rs \<Longrightarrow> map to_of rs = dests rs"
  by (induction rs) (auto simp: to_of_def)

lemma sources_eq: "list_all (\<lambda>r. r_from r \<noteq> None) rs \<Longrightarrow> map from_of rs = sources rs"
  by (induction rs) (auto simp: from_of_def)

lemma filter_to_of:
  "list_all (\<lambda>r. r_to r \<noteq> None) rs \<Longrightarrow>
     filter (\<lambda>r. to_of r = k) rs = filter (\<lambda>r. r_to r = Some k) rs"
  by (induction rs) (auto simp: to_of_def)

lemma filter_from_of:
  "list_all (\<lambda>r. r_from r \<noteq> None) rs \<Longrightarrow>
     filter (\<lambda>r. from_of r = k) rs = filter (\<lambda>r. r_from r = Some k) rs"
  by (induction rs) (auto simp: from_of_def)

lemma policy_type_default_deny [simp]:
  "policy_type (generate_default_deny now ns) = Some ''default-deny''"
  by (simp add: policy_type_def generate_default_deny_def)

lemma filter_all_of_list_all2:
  "list_all2 (\<lambda>x m. Q x m) xs ms \<Longrightarrow> (\<And>x m. Q x m \<Longrightarrow> P m) \<Longrightarrow> filter P ms = ms"
  by (induction rule: list_all2_induct) auto

lemma filter_none_of_list_all2:
  "list_all2 (\<lambda>x m. Q x m) xs ms \<Longrightarrow> (\<And>x m. Q x m \<Longrightarrow> \<not> P m) \<Longrightarrow> filter P ms = []"
  by (induction rule: list_all2_induct) auto

lemma generate_parts:
  assumes "generate clk self i = Inr (ps, self')"
  shows "default_deny_manifests ps = [generate_default_deny (clk 0) (namespace_of i)]"
    and "ps = default_deny_manifests ps @ ingress_manifests ps @ egress_manifests ps"
    and "list_all2 (\<lambda>d m. built_ingress (namespace_of i) d
            (filter (\<lambda>r. r_to r = Some d) (rules_of i)) m)
          (first_seen (dests (rules_of i))) (ingress_manifests ps)"
    and "list_all2 (\<lambda>s m. built_egress (namespace_of i) s
            (map dest_entry (filter (\<lambda>r. r_from r = Some s) (rules_of i))) m)
          (first_seen (sources (rules_of i))) (egress_manifests ps)"
    and "list_all (\<lambda>r. r_from r \<noteq> None \<and> r_to r \<noteq> None) (rules_of i)"
    and "self' = self\<lparr>generated_policies := ps\<rparr>"
proof -
  let ?ns = "namespace_of i" and ?rs = "rules_of i"
  let ?dd = "generate_default_deny (clk 0) ?ns"
  from generate_Inr [OF assms] obtain ing eg where ps: "ps = ?dd # ing @ eg"
    and ing: "list_all2 (\<lambda>(d, rs) m. built_ingress ?ns d rs m) (grouped to_of id ?rs) ing"
    and eg: "list_all2 (\<lambda>(s, ds) m. built_egress ?ns s ds m) (grouped from_of dest_entry ?rs) eg"
    and ok: "list_all (\<lambda>r. r_from r \<noteq> None \<and> r_to r \<noteq> None) ?rs"
    and self': "self' = self\<lparr>generated_policies := ps\<rparr>"
    by blast
  from ok have ok_to: "list_all (\<lambda>r. r_to r \<noteq> None) ?rs"
    and ok_from: "list_all (\<lambda>r. r_from r \<noteq> None) ?rs"
    by (simp_all add: list_all_iff)
  have ing_i: "filter (\<lambda>m. policy_type m = Some ''ingress'') ing = ing"
    by (rule filter_all_of_list_all2 [OF ing]) (auto simp: built_ingress_def)
  have ing_e: "filter (\<lambda>m. policy_type m = Some ''egress'') ing = []"
    by (rule filter_none_of_list_all2 [OF ing]) (auto simp: built_ingress_def)
  have ing_d: "filter (\<lambda>m. policy_type m = Some ''default-deny'') ing = []"
    by (rule filter_none_of_list_all2 [OF ing]) (auto simp: built_ingress_def)
  have eg_e: "filter (\<lambda>m. policy_type m = Some ''egress'') eg = eg"
    by (rule filter_all_of_list_all2 [OF eg]) (auto simp: built_egress_def)
  have eg_i: "filter (\<lambda>m. policy_type m = Some ''ingress'') eg = []"
    by (rule filter_none_of_list_all2 [OF eg]) (auto simp: built_egress_def)
  have eg_d: "filter (\<lambda>m. policy_type m = Some ''default-deny'') eg = []"
    by (rule filter_none_of_list_all2 [OF eg]) (auto simp: built_egress_def)
  have dd: "default_deny_manifests ps = [?dd]"
    by (simp add: ps default_deny_manifests_def ing_d eg_d)
  have im: "ingress_manifests ps = ing"
    by (simp add: ps ingress_manifests_def ing_i eg_i)
  have em: "egress_manifests ps = eg"
    by (simp add: ps egress_manifests_def ing_e eg_e)
  show "default_deny_manifests ps = [?dd]" by (fact dd)
  show "ps = default_deny_manifests ps @ ingress_manifests ps @ egress_manifests ps"
    by (simp add: dd im em) (simp add: ps)
  show "list_all2 (\<lambda>d m. built_ingress ?ns d (filter (\<lambda>r. r_to r = Some d) ?rs) m)
          (first_seen (dests ?rs)) (ingress_manifests ps)"
    using ing unfolding im grouped_def
    by (simp add: list_all2_map1 dests_eq [OF ok_to] filter_to_of [OF ok_to])
  show "list_all2 (\<lambda>s m. built_egress ?ns s
            (map dest_entry (filter (\<lambda>r. r_from r = Some s) ?rs)) m)
          (first_seen (sources ?rs)) (egress_manifests ps)"
    using eg unfolding em grouped_def
    by (simp add: list_all2_map1 sources_eq [OF ok_from] filter_from_of [OF ok_from])
  show "list_all (\<lambda>r. r_from r \<noteq> None \<and> r_to r \<noteq> None) ?rs" by (fact ok)
  show "self' = self\<lparr>generated_policies := ps\<rparr>" by (fact self')
qed

lemma list_all_filter: "list_all P xs \<Longrightarrow> list_all P (filter Q xs)"
  by (simp add: list_all_iff)

lemma built_ingress_peers:
  assumes "built_ingress ns d rs m" and "list_all (\<lambda>r. r_from r \<noteq> None) rs"
  shows "entry_peers m = map (\<lambda>s. [s]) (sources rs)"
proof -
  from assms(1) have "list_all2 (\<lambda>r e. ingress_rule_of ns r = Inr e) rs (ingress_entries m)"
    by (simp add: built_ingress_def)
  then have "map (\<lambda>r. [from_of r]) rs = map (\<lambda>e. map podSelector (ir_from e)) (ingress_entries m)"
    by (rule list_all2_map_eq) (simp add: ingress_rule_of_Inr(2))
  moreover have "map (\<lambda>r. [from_of r]) rs = map (\<lambda>s. [s]) (map from_of rs)"
    by simp
  ultimately show ?thesis
    by (simp add: entry_peers_def sources_eq [OF assms(2)] del: map_map)
qed

lemma built_egress_entries:
  assumes "built_egress ns s (map dest_entry rs) m"
  obtains es where "egress_entries m = es @ [dns_rule]"
    and "list_all2 (\<lambda>r e. egress_rule_of ns (dest_entry r) = Inr e) rs es"
  using assms unfolding built_egress_def by (auto simp: list_all2_map1)

lemma default_deny_but_time:
  "strip_generated_at (generate_default_deny now ns) = strip_generated_at (generate_default_deny now' ns)"
  by (simp add: strip_generated_at_def generate_default_deny_def)

lemma ingress_policy_but_time:
  "same_but_time (generate_ingress_policy now d rs ns nm) (generate_ingress_policy now' d rs ns nm)"
  by (simp add: same_but_time_def generate_ingress_policy_def strip_generated_at_def
      split: sum.splits)

lemma egress_policy_but_time:
  "same_but_time (generate_egress_policy now s ds ns nm) (generate_egress_policy now' s ds ns nm)"
  by (simp add: same_but_time_def generate_egress_policy_def strip_generated_at_def
      split: sum.splits)

lemma ingress_loop_but_time:
  "map strip_generated_at acc = map strip_generated_at acc' \<Longrightarrow>
     same_lists_but_time (ingress_loop clk n gs ns nm acc) (ingress_loop clk' n' gs ns nm acc')"
proof (induction gs arbitrary: n n' acc acc')
  case Nil
  then show ?case by (simp add: same_lists_but_time_def)
next
  case (Cons g gs)
  obtain d rs where g: "g = (d, rs)" by (cases g)
  from ingress_policy_but_time [of "clk n" d rs ns nm "clk' n'"]
  consider e where "generate_ingress_policy (clk n) d rs ns nm = Inl e"
      "generate_ingress_policy (clk' n') d rs ns nm = Inl e"
    | m m' where "generate_ingress_policy (clk n) d rs ns nm = Inr m"
      "generate_ingress_policy (clk' n') d rs ns nm = Inr m'"
      "strip_generated_at m = strip_generated_at m'"
    unfolding same_but_time_def by (auto elim: rel_sum.cases)
  then show ?case
  proof cases
    case 1
    with g show ?thesis by (simp add: same_lists_but_time_def)
  next
    case 2
    with g Cons.prems Cons.IH [of "acc @ [m]" "acc' @ [m']" "Suc n" "Suc n'"]
    show ?thesis by simp
  qed
qed

lemma egress_loop_but_time:
  "map strip_generated_at acc = map strip_generated_at acc' \<Longrightarrow>
     same_lists_but_time (egress_loop clk n gs ns nm acc) (egress_loop clk' n' gs ns nm acc')"
proof (induction gs arbitrary: n n' acc acc')
  case Nil
  then show ?case by (simp add: same_lists_but_time_def)
next
  case (Cons g gs)
  obtain s ds where g: "g = (s, ds)" by (cases g)
  from egress_policy_but_time [of "clk n" s ds ns nm "clk' n'"]
  consider e where "generate_egress_policy (clk n) s ds ns nm = Inl e"
      "generate_egress_policy (clk' n') s ds ns nm = Inl e"
    | m m' where "generate_egress_policy (clk n) s ds ns nm = Inr m"
      "generate_egress_policy (clk' n') s ds ns nm = Inr m'"
      "strip_generated_at m = strip_generated_at m'"
    unfolding same_but_time_def by (auto elim: rel_sum.cases)
  then show ?case
  proof cases
    case 1
    with g show ?thesis by (simp add: same_lists_but_time_def)
  next
    case 2
    with g Cons.prems Cons.IH [of "acc @ [m]" "acc' @ [m']" "Suc n" "Suc n'"]
    show ?thesis by simp
  qed
qed

lemmas eval_defs = generate_def generate_default_deny_def generate_ingress_policy_def
  generate_egress_policy_def ingress_rule_of_def egress_rule_of_def dict_append_def
  rules_of_def name_of_def dns_rule_def Let_def init_def epoch_def policies_of_def
  namespace_of_def

lemmas view_defs = ingress_peers_def entry_peers_def ingress_manifests_def egress_manifests_def
  default_deny_manifests_def policy_type_def
  ingress_entries_def egress_entries_def entry_per_source_def entry_per_rule_def sources_to_def
  ingress_targets_def egress_targets_def default_deny_namespaces_def referenced_namespaces_def
  ingress_ports_def egress_ports_def ports_by_dest_def ports_by_source_def claimed_ports_def
  cartesian_ports_def protocols_or_default_def ingress_namespace_selectors_def
  egress_namespace_selectors_def

lemma sample_run:
  "generate epoch init sample_intent =
     Inr (policies_of (generate epoch init sample_intent),
          init\<lparr>generated_policies := policies_of (generate epoch init sample_intent)\<rparr>)"
  by (simp add: eval_defs sample_intent_def)

lemma falsy_rules_warning:
  "\<not> truthy (i_rules i) \<Longrightarrow> warnings (validate_intent i) = [''No rules defined in intent'']"
  by (cases "i_rules i" rule: truthy.cases) (simp_all add: validate_intent_def rules_of_def)

section \<open>Validated intents on which the generator returns\<close>

lemma validate_rules_no_errors:
  "fst (validate_rules n rs errs warns) = [] \<longleftrightarrow>
     errs = [] \<and> list_all (\<lambda>r. r_from r \<noteq> None \<and> r_to r \<noteq> None) rs"
  by (induction rs arbitrary: n errs warns) (auto simp: Let_def)

lemma valid_iff:
  "valid (validate_intent i) \<longleftrightarrow>
     i_rules i \<noteq> None \<and> list_all (\<lambda>r. r_from r \<noteq> None \<and> r_to r \<noteq> None) (rules_of i)"
proof -
  have "valid (validate_intent i) \<longleftrightarrow>
        fst (validate_rules 0 (rules_of i)
              (if i_rules i = None then [''Missing 'rules' field in intent''] else [])
              (if \<not> truthy (i_rules i) then [''No rules defined in intent''] else [])) = []"
    by (simp add: validate_intent_def Let_def split: prod.splits)
  then show ?thesis
    by (simp add: validate_rules_no_errors)
qed

lemma expand_ports_total:
  "\<not> (truthy ports \<and> protocols = None) \<Longrightarrow> \<exists>pl. expand_ports ports protocols = Inr pl"
proof (cases ports)
  case None
  then show "\<exists>pl. expand_ports ports protocols = Inr pl" by simp
next
  case (Some xs)
  assume ok: "\<not> (truthy ports \<and> protocols = None)"
  show "\<exists>pl. expand_ports ports protocols = Inr pl"
  proof (cases xs)
    case Nil
    with Some show ?thesis by simp
  next
    case (Cons p ps)
    with Some ok obtain qs where "protocols = Some qs" by auto
    with Some Cons show ?thesis
      by (simp add: port_loop_eq del: port_loop.simps)
  qed
qed

lemma dict_get_protocols_None:
  "dict_get (r_protocols r) (Some [''TCP'']) = None \<longleftrightarrow> r_protocols r = Null"
  by (cases "r_protocols r") auto

lemma ingress_rule_of_total:
  assumes "r_from r \<noteq> None" and "protocols_given r"
  shows "\<exists>e. ingress_rule_of ns r = Inr e"
proof -
  from assms(2) obtain pl
    where "expand_ports (dict_get (r_ports r) None) (dict_get (r_protocols r) (Some [''TCP''])) = Inr pl"
    using expand_ports_total [of "dict_get (r_ports r) None" "dict_get (r_protocols r) (Some [''TCP''])"]
    by (auto simp: protocols_given_def dict_get_protocols_None)
  with assms(1) show ?thesis
    by (auto simp: ingress_rule_of_def Let_def)
qed

lemma egress_rule_of_total:
  assumes "dest_ok d"
  shows "\<exists>e. egress_rule_of ns d = Inr e"
proof -
  from assms obtain pl
    where "expand_ports (dict_get (d_ports d) None) (dict_get (d_protocols d) (Some [''TCP''])) = Inr pl"
    using expand_ports_total [of "dict_get (d_ports d) None" "dict_get (d_protocols d) (Some [''TCP''])"]
    by (auto simp: dest_ok_def)
  then show ?thesis
    by (auto simp: egress_rule_of_def Let_def)
qed

lemma dest_ok_dest_entry: "dest_ok (dest_entry r) \<longleftrightarrow> protocols_given r"
  by (simp add: dest_ok_def dest_entry_def protocols_given_def dict_get_protocols_None)

lemma ingress_rules_loop_total:
  "list_all (\<lambda>r. r_from r \<noteq> None \<and> protocols_given r) rs \<Longrightarrow>
     \<exists>es. ingress_rules_loop ns rs acc = Inr es"
proof (induction rs arbitrary: acc)
  case Nil
  then show ?case by simp
next
  case (Cons r rs)
  then obtain e where "ingress_rule_of ns r = Inr e"
    using ingress_rule_of_total [of r ns] by auto
  with Cons show ?case by simp
qed

lemma egress_rules_loop_total:
  "list_all dest_ok ds \<Longrightarrow> \<exists>es. egress_rules_loop ns ds acc = Inr es"
proof (induction ds arbitrary: acc)
  case Nil
  then show ?case by simp
next
  case (Cons d ds)
  then obtain e where "egress_rule_of ns d = Inr e"
    using egress_rule_of_total [of d ns] by auto
  with Cons show ?case by simp
qed

lemma froms_total: "list_all (\<lambda>r. r_from r \<noteq> None) rs \<Longrightarrow> \<exists>xs. froms rs = Inr xs"
  by (induction rs) auto

lemma generate_ingress_policy_total:
  assumes "list_all (\<lambda>r. r_from r \<noteq> None \<and> protocols_given r) rs"
  shows "\<exists>m. generate_ingress_policy now d rs ns nm = Inr m"
proof -
  from assms have "list_all (\<lambda>r. r_from r \<noteq> None) rs" by (simp add: list_all_iff)
  then obtain xs where "froms rs = Inr xs" using froms_total by blast
  moreover obtain es where "ingress_rules_loop ns rs [] = Inr es"
    using ingress_rules_loop_total [OF assms] by blast
  ultimately show ?thesis by (simp add: generate_ingress_policy_def)
qed

lemma generate_egress_policy_total:
  assumes "list_all dest_ok ds"
  shows "\<exists>m. generate_egress_policy now s ds ns nm = Inr m"
proof -
  obtain es where "egress_rules_loop ns ds [] = Inr es"
    using egress_rules_loop_total [OF assms] by blast
  then show ?thesis by (simp add: generate_egress_policy_def)
qed

lemma ingress_loop_total:
  "list_all (\<lambda>g. list_all (\<lambda>r. r_from r \<noteq> None \<and> protocols_given r) (snd g)) gs \<Longrightarrow>
     \<exists>ps n'. ingress_loop clk n gs ns nm acc = Inr (ps, n')"
proof (induction gs arbitrary: n acc)
  case Nil
  then show ?case by simp
next
  case (Cons g gs)
  obtain d rs where g: "g = (d, rs)" by (cases g)
  with Cons.prems obtain m where "generate_ingress_policy (clk n) d rs ns nm = Inr m"
    using generate_ingress_policy_total [of rs "clk n" d ns nm] by auto
  with g Cons show ?case by simp
qed

lemma egress_loop_total:
  "list_all (\<lambda>g. list_all dest_ok (snd g)) gs \<Longrightarrow>
     \<exists>ps n'. egress_loop clk n gs ns nm acc = Inr (ps, n')"
proof (induction gs arbitrary: n acc)
  case Nil
  then show ?case by simp
next
  case (Cons g gs)
  obtain s ds where g: "g = (s, ds)" by (cases g)
  with Cons.prems obtain m where "generate_egress_policy (clk n) s ds ns nm = Inr m"
    using generate_egress_policy_total [of ds "clk n" s ns nm] by auto
  with g Cons show ?case by simp
qed

lemma grouped_members:
  assumes "\<And>x. P x \<Longrightarrow> Q (val x)" and "list_all P xs"
  shows "list_all (\<lambda>g. list_all Q (snd g)) (grouped key val xs)"
  using assms by (auto simp: grouped_def list_all_iff)

lemma generate_total:
  assumes "valid (validate_intent i)" and "list_all protocols_given (rules_of i)"
  shows "\<exists>ps. generate clk self i = Inr (ps, self\<lparr>generated_policies := ps\<rparr>)"
proof -
  let ?rs = "rules_of i" and ?ns = "dict_get (i_namespace i) (Some ''default'')"
  from assms have ok: "list_all (\<lambda>r. (r_from r \<noteq> None \<and> r_to r \<noteq> None) \<and> protocols_given r) ?rs"
    by (simp add: valid_iff list_all_iff)
  then have ft: "list_all (\<lambda>r. r_from r \<noteq> None \<and> r_to r \<noteq> None) ?rs"
    and t: "list_all (\<lambda>r. r_to r \<noteq> None) ?rs"
    by (simp_all add: list_all_iff)
  have gs: "group_by_dest ?rs [] = Inr (grouped to_of id ?rs)"
    using group_by_dest_total [OF t, of "[]"] foldl_dict_append_grouped [of to_of id "[]" ?rs]
    by simp
  have egs: "extract_egress_rules ?rs [] = Inr (grouped from_of dest_entry ?rs)"
    using extract_egress_rules_total [OF ft, of "[]"]
      foldl_dict_append_grouped [of from_of dest_entry "[]" ?rs]
    by simp
  have "list_all (\<lambda>g. list_all (\<lambda>r. r_from r \<noteq> None \<and> protocols_given r) (snd g))
          (grouped to_of id ?rs)"
    by (rule grouped_members [OF _ ok]) simp
  then obtain ps1 n1
    where il: "ingress_loop clk 1 (grouped to_of id ?rs) ?ns (name_of i)
                 [generate_default_deny (clk 0) ?ns] = Inr (ps1, n1)"
    using ingress_loop_total by blast
  have "list_all (\<lambda>g. list_all dest_ok (snd g)) (grouped from_of dest_entry ?rs)"
    by (rule grouped_members [OF _ ok]) (simp add: dest_ok_dest_entry)
  then obtain ps n2
    where el: "egress_loop clk n1 (grouped from_of dest_entry ?rs) ?ns (name_of i) ps1 = Inr (ps, n2)"
    using egress_loop_total by blast
  from gs il egs el show ?thesis
    by (simp add: generate_def)
qed

section \<open>The claims\<close>

text \<open>
  C1. The claim: the peer selector of a rule entry, in the ingress and in the egress
  manifest, has a namespace selector exactly when the namespace of the rule, which is the
  intent's when the rule has none, differs from the namespace of the policy. The ingress
  path does so (\<open>ingress_rule_of_Inr\<close>). The egress path does not:
  \<^verbatim>\<open>_extract_egress_rules\<close> stores \<^verbatim>\<open>rule.get("namespace", "default")\<close>, so a rule without a
  namespace in an intent of the namespace \<^verbatim>\<open>prod\<close> gets the selector \<^verbatim>\<open>default\<close> in the
  egress manifest and none in the ingress manifest.
\<close>

theorem egress_namespace_defaults_to_literal:
  "namespace_of
      \<lparr>i_name = Some ''x'', i_namespace = Val ''prod'',
       i_rules = Some [\<lparr>r_from = Some ''a'', r_to = Some ''b'', r_ports = Absent,
                        r_protocols = Absent, r_namespace = Absent\<rparr>]\<rparr>
     = Some ''prod'' \<and>
   crossing (dict_get Absent (Some ''prod'')) (Some ''prod'') = None \<and>
   ingress_namespace_selectors (policies_of (generate epoch init
      \<lparr>i_name = Some ''x'', i_namespace = Val ''prod'',
       i_rules = Some [\<lparr>r_from = Some ''a'', r_to = Some ''b'', r_ports = Absent,
                        r_protocols = Absent, r_namespace = Absent\<rparr>]\<rparr>))
     = [[[None]]] \<and>
   egress_namespace_selectors (policies_of (generate epoch init
      \<lparr>i_name = Some ''x'', i_namespace = Val ''prod'',
       i_rules = Some [\<lparr>r_from = Some ''a'', r_to = Some ''b'', r_ports = Absent,
                        r_protocols = Absent, r_namespace = Absent\<rparr>]\<rparr>))
     = [[[Some (Some ''default'')], []]]"
  by (simp add: eval_defs view_defs crossing_def)

text \<open>
  C2, as the specification words it: one ingress rule entry for every distinct source
  that names the destination. Two rules from the same source to the same destination
  give two entries.
\<close>

theorem ingress_entry_per_source_counterexample:
  "ingress_peers (policies_of (generate epoch init
      \<lparr>i_name = Some ''x'', i_namespace = Absent,
       i_rules = Some
         [\<lparr>r_from = Some ''a'', r_to = Some ''b'', r_ports = Val [80],
           r_protocols = Absent, r_namespace = Absent\<rparr>,
          \<lparr>r_from = Some ''a'', r_to = Some ''b'', r_ports = Val [443],
           r_protocols = Absent, r_namespace = Absent\<rparr>]\<rparr>))
     \<noteq> entry_per_source (rules_of
      \<lparr>i_name = Some ''x'', i_namespace = Absent,
       i_rules = Some
         [\<lparr>r_from = Some ''a'', r_to = Some ''b'', r_ports = Val [80],
           r_protocols = Absent, r_namespace = Absent\<rparr>,
          \<lparr>r_from = Some ''a'', r_to = Some ''b'', r_ports = Val [443],
           r_protocols = Absent, r_namespace = Absent\<rparr>]\<rparr>) \<and>
   ingress_peers (policies_of (generate epoch init
      \<lparr>i_name = Some ''x'', i_namespace = Absent,
       i_rules = Some
         [\<lparr>r_from = Some ''a'', r_to = Some ''b'', r_ports = Val [80],
           r_protocols = Absent, r_namespace = Absent\<rparr>,
          \<lparr>r_from = Some ''a'', r_to = Some ''b'', r_ports = Val [443],
           r_protocols = Absent, r_namespace = Absent\<rparr>]\<rparr>))
     = [(Some ''b'', [[''a''], [''a'']])] \<and>
   entry_per_source (rules_of
      \<lparr>i_name = Some ''x'', i_namespace = Absent,
       i_rules = Some
         [\<lparr>r_from = Some ''a'', r_to = Some ''b'', r_ports = Val [80],
           r_protocols = Absent, r_namespace = Absent\<rparr>,
          \<lparr>r_from = Some ''a'', r_to = Some ''b'', r_ports = Val [443],
           r_protocols = Absent, r_namespace = Absent\<rparr>]\<rparr>)
     = [(Some ''b'', [[''a'']])]"
  by (simp add: eval_defs view_defs)

text \<open>
  C2, amended: whenever \<^verbatim>\<open>generate\<close> returns, every distinct destination that the rules
  name is the target of exactly one ingress manifest, the manifests are in first-seen
  order of their destinations, and the manifest of a destination has exactly one entry for
  every rule that names it, in rule order, whose only peer is the source of that rule.
\<close>

theorem ingress_entry_per_rule:
  assumes "generate clk self i = Inr (ps, self')"
  shows "ingress_peers ps = entry_per_rule (rules_of i) \<and>
         distinct (map fst (ingress_peers ps)) \<and>
         set (map fst (ingress_peers ps)) = Some ` set (dests (rules_of i))"
proof -
  let ?rs = "rules_of i"
  from generate_parts(5) [OF assms] have ok: "list_all (\<lambda>r. r_from r \<noteq> None) ?rs"
    by (simp add: list_all_iff)
  have "map (\<lambda>d. (Some d, map (\<lambda>s. [s]) (sources_to d ?rs))) (first_seen (dests ?rs)) =
        map (\<lambda>m. (target (spec m), entry_peers m)) (ingress_manifests ps)"
  proof (rule list_all2_map_eq [OF generate_parts(3) [OF assms]])
    fix d m
    assume b: "built_ingress (namespace_of i) d (filter (\<lambda>r. r_to r = Some d) ?rs) m"
    then have "target (spec m) = Some d" by (simp add: built_ingress_def)
    with built_ingress_peers [OF b list_all_filter [OF ok]]
    show "(Some d, map (\<lambda>s. [s]) (sources_to d ?rs)) = (target (spec m), entry_peers m)"
      by (simp add: sources_to_def)
  qed
  then have eq: "ingress_peers ps = entry_per_rule ?rs"
    by (simp add: ingress_peers_def entry_per_rule_def)
  have "map fst (entry_per_rule ?rs) = map Some (first_seen (dests ?rs))"
    by (simp add: entry_per_rule_def comp_def)
  with eq show ?thesis
    by (simp add: distinct_map)
qed

theorem ingress_entry_per_rule_witness:
  "generate epoch init sample_intent =
     Inr (policies_of (generate epoch init sample_intent),
          init\<lparr>generated_policies := policies_of (generate epoch init sample_intent)\<rparr>) \<and>
   ingress_peers (policies_of (generate epoch init sample_intent)) =
     [(Some ''backend'', [[''frontend''], [''auth'']]), (Some ''db'', [[''frontend'']])]"
proof (intro conjI)
  show "generate epoch init sample_intent =
     Inr (policies_of (generate epoch init sample_intent),
          init\<lparr>generated_policies := policies_of (generate epoch init sample_intent)\<rparr>)"
    by (rule sample_run)
  from ingress_entry_per_rule [OF sample_run]
  have "ingress_peers (policies_of (generate epoch init sample_intent)) =
        entry_per_rule (rules_of sample_intent)"
    by (rule conjunct1)
  also have "\<dots> = [(Some ''backend'', [[''frontend''], [''auth'']]), (Some ''db'', [[''frontend'']])]"
    by (simp add: view_defs rules_of_def sample_intent_def)
  finally show "ingress_peers (policies_of (generate epoch init sample_intent)) =
     [(Some ''backend'', [[''frontend''], [''auth'']]), (Some ''db'', [[''frontend'']])]" .
qed

text \<open>
  C3. Whenever \<^verbatim>\<open>generate\<close> returns, the last entry of every egress manifest is the DNS
  entry, with no peer and the ports 53/UDP and 53/TCP, and it is the only entry of the
  manifest without a peer, whatever the rules of the group are.
\<close>

theorem dns_entry_last:
  assumes "generate clk self i = Inr (ps, self')"
  shows "\<forall>m \<in> set (egress_manifests ps).
           egress_entries m \<noteq> [] \<and>
           last (egress_entries m) =
             \<lparr>er_to = [],
              er_ports = Some [\<lparr>port = 53, protocol = ''UDP''\<rparr>, \<lparr>port = 53, protocol = ''TCP''\<rparr>]\<rparr> \<and>
           filter (\<lambda>e. er_to e = []) (egress_entries m) = [last (egress_entries m)]"
proof
  fix m
  assume "m \<in> set (egress_manifests ps)"
  with generate_parts(4) [OF assms] obtain s
    where "built_egress (namespace_of i) s
             (map dest_entry (filter (\<lambda>r. r_from r = Some s) (rules_of i))) m"
    by (auto simp: list_all2_conv_all_nth in_set_conv_nth)
  then obtain es where es: "egress_entries m = es @ [dns_rule]"
    and all: "list_all2 (\<lambda>r e. egress_rule_of (namespace_of i) (dest_entry r) = Inr e)
               (filter (\<lambda>r. r_from r = Some s) (rules_of i)) es"
    by (rule built_egress_entries)
  have "er_to e \<noteq> []" if "e \<in> set es" for e
  proof -
    from that all obtain r where "egress_rule_of (namespace_of i) (dest_entry r) = Inr e"
      by (auto simp: list_all2_conv_all_nth in_set_conv_nth)
    then show ?thesis by (simp add: egress_rule_of_Inr(1))
  qed
  then have "filter (\<lambda>e. er_to e = []) es = []"
    by (simp add: filter_empty_conv)
  with es show "egress_entries m \<noteq> [] \<and>
           last (egress_entries m) =
             \<lparr>er_to = [],
              er_ports = Some [\<lparr>port = 53, protocol = ''UDP''\<rparr>, \<lparr>port = 53, protocol = ''TCP''\<rparr>]\<rparr> \<and>
           filter (\<lambda>e. er_to e = []) (egress_entries m) = [last (egress_entries m)]"
    by (simp add: dns_rule_def)
qed

theorem dns_entry_last_witness:
  "generate epoch init sample_intent =
     Inr (policies_of (generate epoch init sample_intent),
          init\<lparr>generated_policies := policies_of (generate epoch init sample_intent)\<rparr>) \<and>
   hd (egress_manifests (policies_of (generate epoch init sample_intent))) \<in> set (egress_manifests (policies_of (generate epoch init sample_intent))) \<and>
   egress_entries (hd (egress_manifests (policies_of (generate epoch init sample_intent)))) \<noteq> [] \<and>
   last (egress_entries (hd (egress_manifests (policies_of (generate epoch init sample_intent))))) =
     \<lparr>er_to = [],
      er_ports = Some [\<lparr>port = 53, protocol = ''UDP''\<rparr>, \<lparr>port = 53, protocol = ''TCP''\<rparr>]\<rparr> \<and>
   filter (\<lambda>e. er_to e = []) (egress_entries (hd (egress_manifests (policies_of (generate epoch init sample_intent))))) =
     [last (egress_entries (hd (egress_manifests (policies_of (generate epoch init sample_intent)))))]"
proof -
  have m: "hd (egress_manifests (policies_of (generate epoch init sample_intent))) \<in> set (egress_manifests (policies_of (generate epoch init sample_intent)))"
    by (simp add: eval_defs view_defs sample_intent_def)
  from dns_entry_last [OF sample_run] m sample_run show ?thesis
    by blast
qed

text \<open>
  C4, as the specification words it: one default-deny manifest for every distinct
  namespace that the intent refers to. An intent of the namespace \<^verbatim>\<open>default\<close> with a rule
  of the namespace \<^verbatim>\<open>web\<close> refers to two namespaces and gets one default-deny manifest.
\<close>

theorem default_deny_per_namespace_counterexample:
  "length (default_deny_namespaces (policies_of (generate epoch init
      \<lparr>i_name = Some ''x'', i_namespace = Val ''default'',
       i_rules = Some [\<lparr>r_from = Some ''frontend'', r_to = Some ''backend'', r_ports = Val [8080],
                        r_protocols = Val [''TCP''], r_namespace = Val ''web''\<rparr>]\<rparr>)))
     \<noteq> length (referenced_namespaces
      \<lparr>i_name = Some ''x'', i_namespace = Val ''default'',
       i_rules = Some [\<lparr>r_from = Some ''frontend'', r_to = Some ''backend'', r_ports = Val [8080],
                        r_protocols = Val [''TCP''], r_namespace = Val ''web''\<rparr>]\<rparr>) \<and>
   default_deny_namespaces (policies_of (generate epoch init
      \<lparr>i_name = Some ''x'', i_namespace = Val ''default'',
       i_rules = Some [\<lparr>r_from = Some ''frontend'', r_to = Some ''backend'', r_ports = Val [8080],
                        r_protocols = Val [''TCP''], r_namespace = Val ''web''\<rparr>]\<rparr>))
     = [Some ''default''] \<and>
   referenced_namespaces
      \<lparr>i_name = Some ''x'', i_namespace = Val ''default'',
       i_rules = Some [\<lparr>r_from = Some ''frontend'', r_to = Some ''backend'', r_ports = Val [8080],
                        r_protocols = Val [''TCP''], r_namespace = Val ''web''\<rparr>]\<rparr>
     = [Some ''default'', Some ''web'']"
  by (simp add: eval_defs view_defs)

text \<open>
  C4, amended: whenever \<^verbatim>\<open>generate\<close> returns, the list is the default-deny manifests,
  then the ingress manifests, then the egress manifests; there is exactly one default-deny
  manifest, for the namespace of the intent; the ingress manifests are in first-seen order
  of the destinations and the egress manifests in first-seen order of the sources.
\<close>

theorem canonical_order:
  assumes "generate clk self i = Inr (ps, self')"
  shows "ps = default_deny_manifests ps @ ingress_manifests ps @ egress_manifests ps \<and>
         default_deny_namespaces ps = [namespace_of i] \<and>
         ingress_targets ps = map Some (first_seen (dests (rules_of i))) \<and>
         egress_targets ps = map Some (first_seen (sources (rules_of i)))"
proof -
  have "map Some (first_seen (dests (rules_of i))) = map (\<lambda>m. target (spec m)) (ingress_manifests ps)"
    by (rule list_all2_map_eq [OF generate_parts(3) [OF assms]]) (simp add: built_ingress_def)
  moreover
  have "map Some (first_seen (sources (rules_of i))) = map (\<lambda>m. target (spec m)) (egress_manifests ps)"
    by (rule list_all2_map_eq [OF generate_parts(4) [OF assms]]) (simp add: built_egress_def)
  moreover
  have "default_deny_namespaces ps = [namespace_of i]"
    by (simp add: default_deny_namespaces_def generate_parts(1) [OF assms] generate_default_deny_def)
  ultimately show ?thesis
    using generate_parts(2) [OF assms] by (simp add: ingress_targets_def egress_targets_def)
qed

theorem canonical_order_witness:
  "generate epoch init sample_intent =
     Inr (policies_of (generate epoch init sample_intent),
          init\<lparr>generated_policies := policies_of (generate epoch init sample_intent)\<rparr>) \<and>
   policies_of (generate epoch init sample_intent) =
     default_deny_manifests (policies_of (generate epoch init sample_intent)) @
     ingress_manifests (policies_of (generate epoch init sample_intent)) @
     egress_manifests (policies_of (generate epoch init sample_intent)) \<and>
   default_deny_namespaces (policies_of (generate epoch init sample_intent)) = [Some ''default''] \<and>
   ingress_targets (policies_of (generate epoch init sample_intent)) = [Some ''backend'', Some ''db''] \<and>
   egress_targets (policies_of (generate epoch init sample_intent)) = [Some ''frontend'', Some ''auth'']"
proof -
  have "namespace_of sample_intent = Some ''default''"
    by (simp add: namespace_of_def sample_intent_def)
  moreover have "map Some (first_seen (dests (rules_of sample_intent))) = [Some ''backend'', Some ''db'']"
    by (simp add: rules_of_def sample_intent_def)
  moreover have "map Some (first_seen (sources (rules_of sample_intent))) = [Some ''frontend'', Some ''auth'']"
    by (simp add: rules_of_def sample_intent_def)
  ultimately show ?thesis
    using canonical_order [OF sample_run] sample_run by metis
qed

text \<open>
  C5. Whenever \<^verbatim>\<open>generate\<close> returns, the \<^verbatim>\<open>ports\<close> key of the entry of every rule, in
  the ingress manifest of its destination and in the egress manifest of its source, is
  the cartesian product of the ports and the protocols of the rule (\<^verbatim>\<open>["TCP"]\<close> when it
  has none), ports outside and protocols inside, and the key is absent when the rule has
  no ports or an empty list of ports.
\<close>

theorem port_expansion:
  assumes "generate clk self i = Inr (ps, self')"
  shows "ingress_ports ps = ports_by_dest (rules_of i) \<and>
         egress_ports ps = ports_by_source (rules_of i)"
proof -
  let ?ns = "namespace_of i" and ?rs = "rules_of i"
  have "map (\<lambda>d. map claimed_ports (filter (\<lambda>r. r_to r = Some d) ?rs)) (first_seen (dests ?rs)) =
        map (\<lambda>m. map ir_ports (ingress_entries m)) (ingress_manifests ps)"
  proof (rule list_all2_map_eq [OF generate_parts(3) [OF assms]])
    fix d m
    assume "built_ingress ?ns d (filter (\<lambda>r. r_to r = Some d) ?rs) m"
    then have "list_all2 (\<lambda>r e. ingress_rule_of ?ns r = Inr e)
                 (filter (\<lambda>r. r_to r = Some d) ?rs) (ingress_entries m)"
      by (simp add: built_ingress_def)
    then show "map claimed_ports (filter (\<lambda>r. r_to r = Some d) ?rs) = map ir_ports (ingress_entries m)"
      by (rule list_all2_map_eq) (simp add: ingress_rule_of_Inr(3))
  qed
  moreover
  have "map (\<lambda>s. map claimed_ports (filter (\<lambda>r. r_from r = Some s) ?rs)) (first_seen (sources ?rs)) =
        map (\<lambda>m. map er_ports (butlast (egress_entries m))) (egress_manifests ps)"
  proof (rule list_all2_map_eq [OF generate_parts(4) [OF assms]])
    fix s m
    assume "built_egress ?ns s (map dest_entry (filter (\<lambda>r. r_from r = Some s) ?rs)) m"
    then obtain es where es: "egress_entries m = es @ [dns_rule]"
      and all: "list_all2 (\<lambda>r e. egress_rule_of ?ns (dest_entry r) = Inr e)
                 (filter (\<lambda>r. r_from r = Some s) ?rs) es"
      by (rule built_egress_entries)
    from all have "map claimed_ports (filter (\<lambda>r. r_from r = Some s) ?rs) = map er_ports es"
      by (rule list_all2_map_eq) (simp add: egress_rule_of_Inr(2))
    with es show "map claimed_ports (filter (\<lambda>r. r_from r = Some s) ?rs) =
                  map er_ports (butlast (egress_entries m))"
      by simp
  qed
  ultimately show ?thesis
    by (simp add: ingress_ports_def egress_ports_def ports_by_dest_def ports_by_source_def)
qed

theorem port_expansion_witness:
  "generate epoch init sample_intent =
     Inr (policies_of (generate epoch init sample_intent),
          init\<lparr>generated_policies := policies_of (generate epoch init sample_intent)\<rparr>) \<and>
   ingress_ports (policies_of (generate epoch init sample_intent)) =
     [[Some [\<lparr>port = 8080, protocol = ''TCP''\<rparr>],
       Some [\<lparr>port = 80, protocol = ''TCP''\<rparr>, \<lparr>port = 80, protocol = ''UDP''\<rparr>,
             \<lparr>port = 443, protocol = ''TCP''\<rparr>, \<lparr>port = 443, protocol = ''UDP''\<rparr>]],
      [None]] \<and>
   egress_ports (policies_of (generate epoch init sample_intent)) =
     [[Some [\<lparr>port = 8080, protocol = ''TCP''\<rparr>], None],
      [Some [\<lparr>port = 80, protocol = ''TCP''\<rparr>, \<lparr>port = 80, protocol = ''UDP''\<rparr>,
             \<lparr>port = 443, protocol = ''TCP''\<rparr>, \<lparr>port = 443, protocol = ''UDP''\<rparr>]]]"
proof -
  have "ports_by_dest (rules_of sample_intent) =
     [[Some [\<lparr>port = 8080, protocol = ''TCP''\<rparr>],
       Some [\<lparr>port = 80, protocol = ''TCP''\<rparr>, \<lparr>port = 80, protocol = ''UDP''\<rparr>,
             \<lparr>port = 443, protocol = ''TCP''\<rparr>, \<lparr>port = 443, protocol = ''UDP''\<rparr>]],
      [None]]"
    by (simp add: ports_by_dest_def claimed_ports_def cartesian_ports_def protocols_or_default_def
        rules_of_def sample_intent_def)
  moreover have "ports_by_source (rules_of sample_intent) =
     [[Some [\<lparr>port = 8080, protocol = ''TCP''\<rparr>], None],
      [Some [\<lparr>port = 80, protocol = ''TCP''\<rparr>, \<lparr>port = 80, protocol = ''UDP''\<rparr>,
             \<lparr>port = 443, protocol = ''TCP''\<rparr>, \<lparr>port = 443, protocol = ''UDP''\<rparr>]]]"
    by (simp add: ports_by_source_def claimed_ports_def cartesian_ports_def protocols_or_default_def
        rules_of_def sample_intent_def)
  ultimately show ?thesis
    using port_expansion [OF sample_run] sample_run by metis
qed

text \<open>
  C6. Two calls of \<^verbatim>\<open>generate\<close> on the same intent, at any two times and in any two
  states of the object, raise the same exception or return lists that are equal in every
  field but the annotation \<^verbatim>\<open>generated-at\<close>.
\<close>

theorem generate_idempotent_but_time:
  "timeless (generate clk self i) = timeless (generate clk' self2 i)"
proof (cases "group_by_dest (rules_of i) []")
  case (Inl e)
  then show ?thesis by (simp add: generate_def timeless_def)
next
  case gs: (Inr gs)
  let ?ns = "dict_get (i_namespace i) (Some ''default'')"
  let ?il = "ingress_loop clk 1 gs ?ns (name_of i) [generate_default_deny (clk 0) ?ns]"
  let ?il' = "ingress_loop clk' 1 gs ?ns (name_of i) [generate_default_deny (clk' 0) ?ns]"
  have "same_lists_but_time ?il ?il'"
    by (rule ingress_loop_but_time) (simp add: default_deny_but_time [of "clk 0" ?ns "clk' 0"])
  then consider e where "?il = Inl e" "?il' = Inl e"
    | ps n ps' n' where "?il = Inr (ps, n)" "?il' = Inr (ps', n')"
      "map strip_generated_at ps = map strip_generated_at ps'"
    unfolding same_lists_but_time_def by (auto elim!: rel_sum.cases)
  then show ?thesis
  proof cases
    case 1
    with gs show ?thesis by (simp add: generate_def timeless_def)
  next
    case 2
    show ?thesis
    proof (cases "extract_egress_rules (rules_of i) []")
      case (Inl e)
      with gs 2 show ?thesis by (simp add: generate_def timeless_def)
    next
      case egs: (Inr egs)
      let ?el = "egress_loop clk n egs ?ns (name_of i) ps"
      let ?el' = "egress_loop clk' n' egs ?ns (name_of i) ps'"
      from 2(3) have "same_lists_but_time ?el ?el'"
        by (rule egress_loop_but_time)
      then consider e where "?el = Inl e" "?el' = Inl e"
        | qs k qs' k' where "?el = Inr (qs, k)" "?el' = Inr (qs', k')"
          "map strip_generated_at qs = map strip_generated_at qs'"
        unfolding same_lists_but_time_def by (auto elim!: rel_sum.cases)
      then show ?thesis
      proof cases
        case 1
        with gs 2 egs show ?thesis by (simp add: generate_def timeless_def)
      next
        case 2
        with gs \<open>?il = Inr (ps, n)\<close> \<open>?il' = Inr (ps', n')\<close> egs show ?thesis
          by (simp add: generate_def timeless_def)
      qed
    qed
  qed
qed

theorem generate_idempotent_but_time_witness:
  "timeless (generate epoch init sample_intent) =
   timeless (generate later \<lparr>generated_policies = [generate_default_deny ''noon'' None]\<rparr> sample_intent)"
  by (rule generate_idempotent_but_time)

text \<open>
  C7. The claim: \<^verbatim>\<open>generate\<close> never raises on an intent that \<^verbatim>\<open>validate_intent\<close> finds
  valid. A rule with ports whose \<^verbatim>\<open>protocols\<close> key is \<^verbatim>\<open>None\<close> passes the validator, and
  \<^verbatim>\<open>generate\<close> raises a \<^verbatim>\<open>TypeError\<close> on it: \<^verbatim>\<open>rule.get("protocols", ["TCP"])\<close>
  supplies the default for a missing key only. On every other valid intent \<^verbatim>\<open>generate\<close>
  returns (\<open>generate_total\<close>).
\<close>

theorem null_protocols_raise:
  "valid (validate_intent
      \<lparr>i_name = Some ''x'', i_namespace = Absent,
       i_rules = Some [\<lparr>r_from = Some ''a'', r_to = Some ''b'', r_ports = Val [80],
                        r_protocols = Null, r_namespace = Absent\<rparr>]\<rparr>) \<and>
   generate epoch init
      \<lparr>i_name = Some ''x'', i_namespace = Absent,
       i_rules = Some [\<lparr>r_from = Some ''a'', r_to = Some ''b'', r_ports = Val [80],
                        r_protocols = Null, r_namespace = Absent\<rparr>]\<rparr>
     = Inl TypeError"
  by (simp add: eval_defs validate_intent_def)

text \<open>
  C8. For an intent without the key \<^verbatim>\<open>rules\<close>, \<^verbatim>\<open>validate_intent\<close> answers that it is
  not valid, with exactly one error, which names the missing field.
\<close>

theorem validate_missing_rules:
  "i_rules i = None \<Longrightarrow>
     \<not> valid (validate_intent i) \<and>
     errors (validate_intent i) = [''Missing 'rules' field in intent'']"
  by (simp add: validate_intent_def rules_of_def)

theorem validate_missing_rules_witness:
  "i_rules \<lparr>i_name = Some ''x'', i_namespace = Val ''default'', i_rules = None\<rparr> = None \<and>
   \<not> valid (validate_intent \<lparr>i_name = Some ''x'', i_namespace = Val ''default'', i_rules = None\<rparr>) \<and>
   errors (validate_intent \<lparr>i_name = Some ''x'', i_namespace = Val ''default'', i_rules = None\<rparr>)
     = [''Missing 'rules' field in intent'']"
  using validate_missing_rules
    [of "\<lparr>i_name = Some ''x'', i_namespace = Val ''default'', i_rules = None\<rparr>"]
  by simp

text \<open>
  C10. For an intent without the key \<^verbatim>\<open>rules\<close>, the result of \<^verbatim>\<open>validate_intent\<close> has
  the warning that no rules are defined, next to the error for the missing field.
\<close>

theorem missing_rules_warning:
  "i_rules i = None \<Longrightarrow>
     ''No rules defined in intent'' \<in> set (warnings (validate_intent i)) \<and>
     ''Missing 'rules' field in intent'' \<in> set (errors (validate_intent i))"
  by (simp add: validate_intent_def rules_of_def)

theorem missing_rules_warning_witness:
  "i_rules \<lparr>i_name = None, i_namespace = Absent, i_rules = None\<rparr> = None \<and>
   ''No rules defined in intent''
     \<in> set (warnings (validate_intent \<lparr>i_name = None, i_namespace = Absent, i_rules = None\<rparr>)) \<and>
   ''Missing 'rules' field in intent''
     \<in> set (errors (validate_intent \<lparr>i_name = None, i_namespace = Absent, i_rules = None\<rparr>))"
  using missing_rules_warning [of "\<lparr>i_name = None, i_namespace = Absent, i_rules = None\<rparr>"]
  by simp

end
